theory Spec2Isabelle
  imports Main
begin

section \<open>The terminal buffer emulator of term.py\<close>

text \<open>
  A shallow embedding of the classes \<open>Terminal\<close> and \<open>VT100\<close> of \<open>src/term.py\<close>.
  The object is a record that every method takes and returns; a method that can raise
  returns \<open>error + terminal\<close>, with \<open>Inl\<close> the exception. Integers are Python's
  unbounded ints. Text is a list of characters (\<open>string\<close>); the code compares a
  character only with ASCII literals and the digit class. The decoding of raw bytes
  to text (\<open>data.decode('utf8', 'replace')\<close>) is not part of the model, which
  starts from the decoded text. The \<open>debug\<close> flag only prints and is left out, and
  so is the key map of \<open>VT100.map\<close>, which no operation of the terminal reads.
\<close>

subsection \<open>Python values: exceptions, truthiness, list indexing\<close>

datatype error = TypeError | IndexError

text \<open>\<open>a or b\<close> on integers: \<open>a\<close> unless it is zero.\<close>

definition py_or :: "int \<Rightarrow> int \<Rightarrow> int" where
  "py_or a b = (if a = 0 then b else a)"

text \<open>
  The position that the index \<open>i\<close> denotes in a list of length \<open>n\<close>: a negative
  index counts from the end, and an index outside \<open>[-n, n)\<close> raises IndexError.
\<close>

definition py_index :: "nat \<Rightarrow> int \<Rightarrow> nat option" where
  "py_index n i =
     (if 0 \<le> i \<and> i < int n then Some (nat i)
      else if - int n \<le> i \<and> i < 0 then Some (nat (int n + i))
      else None)"

text \<open>\<open>del xs[i]\<close>.\<close>

definition py_del :: "'a list \<Rightarrow> int \<Rightarrow> error + 'a list" where
  "py_del xs i =
     (case py_index (length xs) i of
        None \<Rightarrow> Inl IndexError
      | Some j \<Rightarrow> Inr (take j xs @ drop (Suc j) xs))"

text \<open>\<open>xs.insert(i, x)\<close>: never raises, the index is clipped to \<open>[0, len]\<close>.\<close>

definition py_insert :: "'a list \<Rightarrow> int \<Rightarrow> 'a \<Rightarrow> 'a list" where
  "py_insert xs i x =
     (let n = int (length xs);
          j = (if i < 0 then max 0 (n + i) else min i n)
      in take (nat j) xs @ x # drop (nat j) xs)"

subsection \<open>The class Terminal\<close>

record terminal =
  cols :: int
  rows :: int
  scroll :: "int \<times> int"
  row :: int
  col :: int
  pending :: string
  buf :: "char list list"

definition ESCAPE :: char where
  "ESCAPE = CHR 0x1B"

definition blank_line :: "terminal \<Rightarrow> char list" where
  "blank_line s = replicate (nat (cols s)) CHR '' ''"

definition reset :: "terminal \<Rightarrow> terminal" where
  "reset s = s\<lparr>buf := replicate (nat (rows s)) (blank_line s)\<rparr>"

definition init :: "int \<Rightarrow> int \<Rightarrow> terminal" where
  "init c r =
     reset \<lparr>cols = c, rows = r, scroll = (1, r), row = 1, col = 1, pending = [], buf = []\<rparr>"

fun del_lines_loop :: "nat \<Rightarrow> int \<Rightarrow> terminal \<Rightarrow> error + terminal" where
  "del_lines_loop 0 r s = Inr s"
| "del_lines_loop (Suc n) r s =
     (case py_del (buf s) (r - 1) of
        Inl e \<Rightarrow> Inl e
      | Inr b \<Rightarrow>
          del_lines_loop n r (s\<lparr>buf := py_insert b (snd (scroll s) - 1) (blank_line s)\<rparr>))"

definition del_lines :: "terminal \<Rightarrow> int \<Rightarrow> int option \<Rightarrow> error + terminal" where
  "del_lines s num rowo =
     del_lines_loop (nat num) (case rowo of None \<Rightarrow> row s | Some r \<Rightarrow> r) s"

text \<open>
  \<open>move\<close>: the target position first (\<open>self.row + row or 1\<close> parses as
  \<open>(self.row + row) or 1\<close>, and adding \<open>None\<close> raises TypeError), then the four
  normalisation steps in the order of the source, each testing the values the
  previous one left.
\<close>

definition move_target :: "terminal \<Rightarrow> int option \<Rightarrow> int option \<Rightarrow> bool \<Rightarrow> error + int \<times> int" where
  "move_target s rowo colo relative =
     (if relative then
        (case rowo of
           None \<Rightarrow> Inl TypeError
         | Some r \<Rightarrow>
             (case colo of
                None \<Rightarrow> Inl TypeError
              | Some c \<Rightarrow> Inr (py_or (row s + r) 1, py_or (col s + c) 1)))
      else
        Inr (case rowo of None \<Rightarrow> row s | Some r \<Rightarrow> r,
             case colo of None \<Rightarrow> col s | Some c \<Rightarrow> c))"

definition move :: "terminal \<Rightarrow> int option \<Rightarrow> int option \<Rightarrow> bool \<Rightarrow> error + terminal" where
  "move s rowo colo relative =
     (case move_target s rowo colo relative of
        Inl e \<Rightarrow> Inl e
      | Inr (r0, c0) \<Rightarrow>
          (let r1 = (if c0 > cols s then r0 + 1 else r0);
               c1 = (if c0 > cols s then 1 else c0);
               r2 = (if c1 < 1 then r1 - 1 else r1);
               c2 = (if c1 < 1 then cols s else c1);
               start = fst (scroll s);
               stop = snd (scroll s);
               r3 = (if r2 < start then start else r2)
           in if r3 > stop then
                (case del_lines s 1 (Some (start - 1)) of
                   Inl e \<Rightarrow> Inl e
                 | Inr s' \<Rightarrow> Inr (s'\<lparr>row := stop, col := c2\<rparr>))
              else Inr (s\<lparr>row := r3, col := c2\<rparr>)))"

definition rel :: "terminal \<Rightarrow> int option \<Rightarrow> int option \<Rightarrow> error + terminal" where
  "rel s rowo colo = move s rowo colo True"

text \<open>
  \<open>puts\<close>: \<open>self.buf[self.row-1][self.col-1] = c\<close> reads the row and stores into it,
  both with Python's indexing; then the cursor advances when \<open>move\<close> is set.
\<close>

fun puts :: "terminal \<Rightarrow> string \<Rightarrow> bool \<Rightarrow> error + terminal" where
  "puts s [] mv = Inr s"
| "puts s (c # cs) mv =
     (case py_index (length (buf s)) (row s - 1) of
        None \<Rightarrow> Inl IndexError
      | Some i \<Rightarrow>
          (case py_index (length (buf s ! i)) (col s - 1) of
             None \<Rightarrow> Inl IndexError
           | Some j \<Rightarrow>
               (let s1 = s\<lparr>buf := (buf s)[i := (buf s ! i)[j := c]]\<rparr>
                in if mv then
                     (case move s1 (Some (row s1)) (Some (col s1 + 1)) False of
                        Inl e \<Rightarrow> Inl e
                      | Inr s2 \<Rightarrow> puts s2 cs mv)
                   else puts s1 cs mv)))"

text \<open>\<open>erase\<close>: the two nested loops over \<open>range(start[0], end[0])\<close> and \<open>range(start[1], end[1])\<close>.\<close>

fun erase_cols :: "terminal \<Rightarrow> int \<Rightarrow> int list \<Rightarrow> error + terminal" where
  "erase_cols s r [] = Inr s"
| "erase_cols s r (c # cs) =
     (case move s (Some r) (Some c) False of
        Inl e \<Rightarrow> Inl e
      | Inr s1 \<Rightarrow>
          (case puts s1 '' '' True of
             Inl e \<Rightarrow> Inl e
           | Inr s2 \<Rightarrow> erase_cols s2 r cs))"

fun erase_rows :: "terminal \<Rightarrow> int list \<Rightarrow> int list \<Rightarrow> error + terminal" where
  "erase_rows s [] cs = Inr s"
| "erase_rows s (r # rs) cs =
     (case erase_cols s r cs of
        Inl e \<Rightarrow> Inl e
      | Inr s1 \<Rightarrow> erase_rows s1 rs cs)"

definition erase :: "terminal \<Rightarrow> int \<times> int \<Rightarrow> int \<times> int \<Rightarrow> error + terminal" where
  "erase s start stop =
     (case erase_rows s [fst start..fst stop - 1] [snd start..snd stop - 1] of
        Inl e \<Rightarrow> Inl e
      | Inr s' \<Rightarrow> Inr (s'\<lparr>row := row s, col := col s\<rparr>))"

definition set_scroll :: "terminal \<Rightarrow> int \<Rightarrow> int \<Rightarrow> terminal" where
  "set_scroll s start stop = s\<lparr>scroll := (start, stop)\<rparr>"

definition dump :: "terminal \<Rightarrow> string" where
  "dump s = concat (map (\<lambda>r. r @ [CHR 0x0A]) (buf s))"

subsection \<open>The class VT100: the table of control sequences\<close>

text \<open>
  Each regular expression of the table is a function from the lookahead window to the
  length of the match at its start and the integer groups (\<open>intgroups\<close>). Every
  expression ends in a literal that is neither a digit nor a semicolon, so the greedy
  run of digits is the only way to match and no backtracking is modelled.
\<close>

type_synonym matcher = "string \<Rightarrow> (nat \<times> int list) option"

definition is_digit :: "char \<Rightarrow> bool" where
  "is_digit c = (c \<in> set ''0123456789'')"

definition int_of_digits :: "string \<Rightarrow> int" where
  "int_of_digits ds = foldl (\<lambda>a d. 10 * a + (of_char d - 48)) 0 ds"

text \<open>A literal, after \<open>re.escape\<close>.\<close>

definition re_lit :: "string \<Rightarrow> matcher" where
  "re_lit lit ctx = (if take (length lit) ctx = lit then Some (length lit, []) else None)"

text \<open>\<open>\[(\d+)X\<close>, and with a prefix \<open>p\<close> for \<open>\[\?(\d+)h\<close>.\<close>

definition re_num :: "string \<Rightarrow> char \<Rightarrow> matcher" where
  "re_num p x ctx =
     (if take (length p) ctx = p then
        (let rest = drop (length p) ctx;
             ds = takeWhile is_digit rest;
             tl = dropWhile is_digit rest
         in if ds \<noteq> [] \<and> take 1 tl = [x] then Some (length p + length ds + 1, [int_of_digits ds])
            else None)
      else None)"

text \<open>\<open>\[(\d+);(\d+)[xs]\<close>.\<close>

definition re_num2 :: "string \<Rightarrow> matcher" where
  "re_num2 xs ctx =
     (if take 1 ctx = ''['' then
        (let rest = drop 1 ctx;
             ds = takeWhile is_digit rest;
             tl = dropWhile is_digit rest
         in if ds \<noteq> [] \<and> take 1 tl = '';'' then
              (let rest2 = drop 1 tl;
                   es = takeWhile is_digit rest2;
                   tl2 = dropWhile is_digit rest2
               in if es \<noteq> [] \<and> tl2 \<noteq> [] \<and> hd tl2 \<in> set xs
                  then Some (length ds + length es + 3, [int_of_digits ds, int_of_digits es])
                  else None)
            else None)
      else None)"

text \<open>
  \<open>\[([\d;]+)?m\<close>: the group is kept by \<open>intgroups\<close> only when it is all digits.
\<close>

definition re_sgr :: matcher where
  "re_sgr ctx =
     (if take 1 ctx = ''['' then
        (let rest = drop 1 ctx;
             ds = takeWhile (\<lambda>c. is_digit c \<or> c = CHR '';'') rest;
             tl = dropWhile (\<lambda>c. is_digit c \<or> c = CHR '';'') rest
         in if take 1 tl = ''m''
            then Some (length ds + 2, if ds \<noteq> [] \<and> list_all is_digit ds then [int_of_digits ds] else [])
            else None)
      else None)"

type_synonym effect = "int list \<Rightarrow> terminal \<Rightarrow> error + terminal"

text \<open>The effects read \<open>g[0]\<close> and \<open>g[1]\<close>, which raise IndexError on a shorter list.\<close>

definition with1 :: "(int \<Rightarrow> terminal \<Rightarrow> error + terminal) \<Rightarrow> effect" where
  "with1 f g s = (case g of a # _ \<Rightarrow> f a s | _ \<Rightarrow> Inl IndexError)"

definition with2 :: "(int \<Rightarrow> int \<Rightarrow> terminal \<Rightarrow> error + terminal) \<Rightarrow> effect" where
  "with2 f g s = (case g of a # b # _ \<Rightarrow> f a b s | _ \<Rightarrow> Inl IndexError)"

definition control :: "(matcher \<times> effect option) list" where
  "control =
    [(re_num ''['' CHR ''A'', Some (with1 (\<lambda>a s. rel s (Some (- a)) (Some 0)))),
     (re_num ''['' CHR ''B'', Some (with1 (\<lambda>a s. rel s (Some a) (Some 0)))),
     (re_num ''['' CHR ''C'', Some (with1 (\<lambda>a s. rel s (Some 0) (Some a)))),
     (re_num ''['' CHR ''D'', Some (with1 (\<lambda>a s. rel s (Some 0) (Some (- a))))),
     (re_num2 ''Hf'', Some (with2 (\<lambda>a b s. move s (Some a) (Some b) False))),
     (re_num2 ''r'', Some (with2 (\<lambda>a b s. Inr (set_scroll s a b)))),
     (re_num ''['' CHR ''M'', Some (with1 (\<lambda>a s. del_lines s a None))),
     (re_lit ''[0?J'', Some (\<lambda>g s. erase s (row s, col s) (rows s, cols s))),
     (re_num ''[?'' CHR ''h'', None),
     (re_sgr, None),
     (re_lit ''[A'', Some (\<lambda>g s. rel s (Some (- 1)) None)),
     (re_lit ''[B'', Some (\<lambda>g s. rel s (Some 1) None)),
     (re_lit ''[C'', Some (\<lambda>g s. rel s None (Some 1))),
     (re_lit ''[D'', Some (\<lambda>g s. rel s None (Some 1))),
     (re_lit ''[H'', Some (\<lambda>g s. move s (Some 1) (Some 1) False)),
     (re_lit ''[2J'', Some (\<lambda>g s. Inr (reset s))),
     (re_lit ''[K'', Some (\<lambda>g s. erase s (row s, col s) (row s + 1, cols s))),
     (re_lit ''[M'', Some (\<lambda>g s. del_lines s 1 (Some (row s + 1)))),
     (re_lit ''>'', None),
     (re_lit ''<'', None),
     (re_lit ''[?1l'', None),
     (re_lit ''='', None)]"

text \<open>
  \<open>VT100.sequence\<close>: the first expression of the table that matches the window
  \<open>data[i+1:i+10]\<close> runs its effect and consumes the introducer and the match;
  0 when the window is empty or nothing matches.
\<close>

fun first_match :: "(matcher \<times> effect option) list \<Rightarrow> string \<Rightarrow> terminal \<Rightarrow> error + nat \<times> terminal" where
  "first_match [] ctx s = Inr (0, s)"
| "first_match ((r, func) # rest) ctx s =
     (case r ctx of
        None \<Rightarrow> first_match rest ctx s
      | Some (n, g) \<Rightarrow>
          (case func of
             None \<Rightarrow> Inr (1 + n, s)
           | Some f \<Rightarrow>
               (case f g s of
                  Inl e \<Rightarrow> Inl e
                | Inr s' \<Rightarrow> Inr (1 + n, s'))))"

definition sequence :: "terminal \<Rightarrow> string \<Rightarrow> nat \<Rightarrow> error + nat \<times> terminal" where
  "sequence s data i =
     (let ctx = take 9 (drop (i + 1) data)
      in if ctx = [] then Inr (0, s) else first_match control ctx s)"

subsection \<open>The stream decoder\<close>

text \<open>
  \<open>pre\<close> returns the number of characters consumed, or \<open>None\<close> for a plain
  character. The loop of \<open>append\<close> calls it only with \<open>i < len(data)\<close>.
\<close>

definition pre :: "terminal \<Rightarrow> string \<Rightarrow> nat \<Rightarrow> error + nat option \<times> terminal" where
  "pre s data i =
     (let b = data ! i in
      if b = ESCAPE then
        (case sequence s data i of
           Inl e \<Rightarrow> Inl e
         | Inr (n, s') \<Rightarrow> Inr (Some n, s'))
      else if b = CHR 0x08 then
        (case puts (s\<lparr>col := max 0 (col s - 1)\<rparr>) '' '' False of
           Inl e \<Rightarrow> Inl e
         | Inr s' \<Rightarrow> Inr (Some 1, s'))
      else if b = CHR 0x0D then
        (case move s None (Some 1) False of
           Inl e \<Rightarrow> Inl e
         | Inr s' \<Rightarrow> Inr (Some 1, s'))
      else if b = CHR 0x0A then
        (case move s (Some (row s + 1)) (Some 1) False of
           Inl e \<Rightarrow> Inl e
         | Inr s' \<Rightarrow> Inr (Some 1, s'))
      else if b = CHR 0x07 then Inr (Some 1, s)
      else Inr (None, s))"

function append_loop :: "terminal \<Rightarrow> string \<Rightarrow> nat \<Rightarrow> error + terminal" where
  "append_loop s data i =
     (if i < length data then
        (case pre s data i of
           Inl e \<Rightarrow> Inl e
         | Inr (p, s1) \<Rightarrow>
             (case p of
                Some n \<Rightarrow>
                  if n = 0 then
                    (if int i > int (length data) - 8 then Inr (s1\<lparr>pending := drop i data\<rparr>)
                     else append_loop s1 data (i + 1))
                  else append_loop s1 data (i + n)
              | None \<Rightarrow>
                  (case puts s1 [data ! i] True of
                     Inl e \<Rightarrow> Inl e
                   | Inr s2 \<Rightarrow> append_loop s2 data (i + 1))))
      else Inr s)"
  by pat_completeness auto
termination
  by (relation "measure (\<lambda>(s, data, i). length data - i)") auto

definition append_chunk :: "terminal \<Rightarrow> string \<Rightarrow> error + terminal" where
  "append_chunk s data = append_loop (s\<lparr>pending := []\<rparr>) (pending s @ data) 0"

text \<open>Successive calls of \<open>append\<close>; the first exception ends the run.\<close>

fun append_all :: "terminal \<Rightarrow> string list \<Rightarrow> error + terminal" where
  "append_all s [] = Inr s"
| "append_all s (d # ds) =
     (case append_chunk s d of
        Inl e \<Rightarrow> Inl e
      | Inr s' \<Rightarrow> append_all s' ds)"

section \<open>Vocabulary of the statements\<close>

text \<open>
  \<open>grid c n s\<close>: the terminal has \<open>c\<close> columns and \<open>n\<close> rows and its buffer has that
  shape, \<open>n\<close> rows of \<open>c\<close> cells each.
\<close>

definition grid :: "int \<Rightarrow> int \<Rightarrow> terminal \<Rightarrow> bool" where
  "grid c n s =
     (cols s = c \<and> rows s = n \<and> length (buf s) = nat n \<and>
      list_all (\<lambda>x. length x = nat c) (buf s))"

text \<open>The cell at the 1-based position \<open>(r, k)\<close>.\<close>

definition cell :: "terminal \<Rightarrow> int \<Rightarrow> int \<Rightarrow> char" where
  "cell s r k = buf s ! nat (r - 1) ! nat (k - 1)"

text \<open>
  A plain character is one that \<open>pre\<close> does not treat: not the escape introducer,
  backspace, carriage return, line feed or bell.
\<close>

definition plain :: "char \<Rightarrow> bool" where
  "plain b = (b \<noteq> ESCAPE \<and> b \<noteq> CHR 0x08 \<and> b \<noteq> CHR 0x0D \<and> b \<noteq> CHR 0x0A \<and> b \<noteq> CHR 0x07)"

text \<open>
  The buffer with every cell of the half-open rectangle \<open>[start.row, stop.row) \<times>
  [start.col, stop.col)\<close> set to a space and every other cell kept, as the description
  of \<open>erase\<close> has it.
\<close>

definition erased_rect :: "char list list \<Rightarrow> int \<times> int \<Rightarrow> int \<times> int \<Rightarrow> char list list" where
  "erased_rect b start stop =
     map (\<lambda>i. map (\<lambda>j. if fst start \<le> int i + 1 \<and> int i + 1 < fst stop \<and>
                            snd start \<le> int j + 1 \<and> int j + 1 < snd stop
                         then CHR '' '' else b ! i ! j)
                 [0..<length (b ! i)])
         [0..<length b]"

text \<open>
  Auxiliary notions of the proofs: the buffer after one cell is stored, a buffer that
  differs from another by blanks on a set of cells, and an effect of the table that
  keeps the shape of the grid.
\<close>

definition put_cell :: "char list list \<Rightarrow> int \<Rightarrow> int \<Rightarrow> char \<Rightarrow> char list list" where
  "put_cell b r c x = b[nat (r - 1) := (b ! nat (r - 1))[nat (c - 1) := x]]"

definition blanked :: "char list list \<Rightarrow> char list list \<Rightarrow> (nat \<times> nat) set \<Rightarrow> bool" where
  "blanked b B S =
     (length B = length b \<and>
      (\<forall>i < length b. length (B ! i) = length (b ! i) \<and>
         (\<forall>j < length (b ! i). B ! i ! j = (if (i, j) \<in> S then CHR '' '' else b ! i ! j))))"

definition keeps_grid :: "effect \<Rightarrow> bool" where
  "keeps_grid f = (\<forall>g s s' c n. grid c n s \<longrightarrow> f g s = Inr s' \<longrightarrow> grid c n s')"

declare append_loop.simps [simp del]

section \<open>Auxiliary lemmas\<close>

subsection \<open>Every operation keeps the shape of the grid\<close>

lemma grid_cursor [simp]:
  "grid c n (s\<lparr>row := r\<rparr>) = grid c n s"
  "grid c n (s\<lparr>col := k\<rparr>) = grid c n s"
  "grid c n (s\<lparr>pending := p\<rparr>) = grid c n s"
  "grid c n (s\<lparr>scroll := q\<rparr>) = grid c n s"
  by (simp_all add: grid_def)

lemma grid_reset: "grid (cols s) (rows s) (reset s)"
  by (simp add: grid_def reset_def blank_line_def list_all_iff)

lemma grid_init: "grid c n (init c n)"
  using grid_reset [of "\<lparr>cols = c, rows = n, scroll = (1, n), row = 1, col = 1, pending = [], buf = []\<rparr>"]
  by (simp add: init_def)

lemma py_index_less: "py_index n i = Some j \<Longrightarrow> j < n"
  by (auto simp: py_index_def split: if_splits)

lemma py_del_shape:
  assumes "py_del xs i = Inr ys"
  shows "Suc (length ys) = length xs \<and> set ys \<subseteq> set xs"
proof -
  from assms obtain j where j: "py_index (length xs) i = Some j" and ys: "ys = take j xs @ drop (Suc j) xs"
    by (auto simp: py_del_def split: option.splits)
  from j have "j < length xs" by (rule py_index_less)
  moreover have "set (take j xs) \<subseteq> set xs" "set (drop (Suc j) xs) \<subseteq> set xs"
    by (auto dest: in_set_takeD in_set_dropD)
  ultimately show ?thesis using ys by auto
qed

lemma py_insert_shape:
  "length (py_insert xs i x) = Suc (length xs) \<and> set (py_insert xs i x) \<subseteq> insert x (set xs)"
  by (auto simp: py_insert_def Let_def dest: in_set_takeD in_set_dropD)

lemma grid_del_lines_loop:
  "grid c n s \<Longrightarrow> del_lines_loop k r s = Inr s' \<Longrightarrow> grid c n s' \<and> scroll s' = scroll s"
proof (induction k arbitrary: s)
  case 0
  then show ?case by simp
next
  case (Suc k)
  from Suc.prems(2) obtain b where b: "py_del (buf s) (r - 1) = Inr b"
    and rest: "del_lines_loop k r (s\<lparr>buf := py_insert b (snd (scroll s) - 1) (blank_line s)\<rparr>) = Inr s'"
    by (auto split: sum.splits)
  let ?b = "py_insert b (snd (scroll s) - 1) (blank_line s)"
  have len: "length ?b = length (buf s)"
    using py_del_shape [OF b] py_insert_shape [of b "snd (scroll s) - 1" "blank_line s"] by simp
  have sub: "set ?b \<subseteq> insert (blank_line s) (set (buf s))"
    using py_del_shape [OF b] py_insert_shape [of b "snd (scroll s) - 1" "blank_line s"] by blast
  have "grid c n (s\<lparr>buf := ?b\<rparr>)"
    using Suc.prems(1) len sub by (auto simp: grid_def list_all_iff blank_line_def)
  from Suc.IH [OF this rest] show ?case by simp
qed

lemma grid_del_lines:
  "grid c n s \<Longrightarrow> del_lines s k ro = Inr s' \<Longrightarrow> grid c n s' \<and> scroll s' = scroll s"
  unfolding del_lines_def by (rule grid_del_lines_loop)

lemma grid_move:
  assumes "grid c n s" "move s ro co rl = Inr s'"
  shows "grid c n s'"
proof -
  from assms(2) obtain r0 c0 where "move_target s ro co rl = Inr (r0, c0)"
    by (auto simp: move_def split: sum.splits)
  with assms show ?thesis
    by (auto simp: move_def Let_def split: sum.splits if_splits dest: grid_del_lines)
qed

lemma grid_update_cell:
  "grid c n s \<Longrightarrow> grid c n (s\<lparr>buf := (buf s)[i := (buf s ! i)[j := x]]\<rparr>)"
proof -
  assume g: "grid c n s"
  have "length ((buf s)[i := (buf s ! i)[j := x]] ! k) = nat c" if "k < length (buf s)" for k
    using that g by (cases "k = i") (auto simp: grid_def list_all_length)
  with g show ?thesis by (simp add: grid_def list_all_length)
qed

lemma grid_puts:
  "grid c n s \<Longrightarrow> puts s xs mv = Inr s' \<Longrightarrow> grid c n s'"
proof (induction xs arbitrary: s)
  case Nil
  then show ?case by simp
next
  case (Cons x xs)
  from Cons.prems(2) obtain i j where
    run: "(let s1 = s\<lparr>buf := (buf s)[i := (buf s ! i)[j := x]]\<rparr>
           in if mv then (case move s1 (Some (row s1)) (Some (col s1 + 1)) False of
                            Inl e \<Rightarrow> Inl e | Inr s2 \<Rightarrow> puts s2 xs mv)
              else puts s1 xs mv) = Inr s'"
    by (auto split: option.splits)
  let ?s1 = "s\<lparr>buf := (buf s)[i := (buf s ! i)[j := x]]\<rparr>"
  have g1: "grid c n ?s1" using Cons.prems(1) by (rule grid_update_cell)
  show ?case
  proof (cases mv)
    case True
    with run obtain s2 where m: "move ?s1 (Some (row ?s1)) (Some (col ?s1 + 1)) False = Inr s2"
      and p: "puts s2 xs mv = Inr s'"
      by (auto simp: Let_def split: sum.splits)
    from grid_move [OF g1 m] p show ?thesis by (rule Cons.IH)
  next
    case False
    with run have "puts ?s1 xs mv = Inr s'" by (simp add: Let_def)
    with g1 show ?thesis by (rule Cons.IH)
  qed
qed

lemma grid_puts_col:
  "grid c n s \<Longrightarrow> puts (s\<lparr>col := k\<rparr>) xs mv = Inr s' \<Longrightarrow> grid c n s'"
  using grid_puts [of c n "s\<lparr>col := k\<rparr>"] by simp

lemma grid_erase_cols:
  "grid c n s \<Longrightarrow> erase_cols s r cs = Inr s' \<Longrightarrow> grid c n s'"
proof (induction cs arbitrary: s)
  case Nil
  then show ?case by simp
next
  case (Cons k cs)
  from Cons.prems(2) obtain s1 s2 where "move s (Some r) (Some k) False = Inr s1"
    "puts s1 '' '' True = Inr s2" "erase_cols s2 r cs = Inr s'"
    by (auto split: sum.splits)
  with Cons.prems(1) Cons.IH show ?case
    using grid_move grid_puts by blast
qed

lemma grid_erase_rows:
  "grid c n s \<Longrightarrow> erase_rows s rs cs = Inr s' \<Longrightarrow> grid c n s'"
proof (induction rs arbitrary: s)
  case Nil
  then show ?case by simp
next
  case (Cons r rs)
  from Cons.prems(2) obtain s1 where "erase_cols s r cs = Inr s1" "erase_rows s1 rs cs = Inr s'"
    by (auto split: sum.splits)
  with Cons.prems(1) Cons.IH show ?case
    using grid_erase_cols by blast
qed

lemma grid_erase:
  "grid c n s \<Longrightarrow> erase s a b = Inr s' \<Longrightarrow> grid c n s'"
  by (auto simp: erase_def split: sum.splits dest: grid_erase_rows)

lemma keeps_grid_with1:
  "(\<And>a s s' c n. grid c n s \<Longrightarrow> f a s = Inr s' \<Longrightarrow> grid c n s') \<Longrightarrow> keeps_grid (with1 f)"
  by (auto simp: keeps_grid_def with1_def split: list.splits)

lemma keeps_grid_with2:
  "(\<And>a b s s' c n. grid c n s \<Longrightarrow> f a b s = Inr s' \<Longrightarrow> grid c n s') \<Longrightarrow> keeps_grid (with2 f)"
  by (auto simp: keeps_grid_def with2_def split: list.splits)

lemma grid_rel: "grid c n s \<Longrightarrow> rel s ro co = Inr s' \<Longrightarrow> grid c n s'"
  unfolding rel_def by (rule grid_move)

lemma grid_reset': "grid c n s \<Longrightarrow> grid c n (reset s)"
  using grid_reset [of s] by (simp add: grid_def)

lemma keeps_grid_control:
  "\<forall>(r, func) \<in> set control. \<forall>f. func = Some f \<longrightarrow> keeps_grid f"
  unfolding control_def
  apply (simp del: with1_def)
  apply (intro conjI keeps_grid_with1 keeps_grid_with2)
  apply (auto simp: keeps_grid_def set_scroll_def dest: grid_rel grid_move grid_erase grid_del_lines grid_reset')
  done

lemma grid_first_match:
  assumes "\<forall>(r, func) \<in> set tbl. \<forall>f. func = Some f \<longrightarrow> keeps_grid f"
    and "grid c n s" and "first_match tbl ctx s = Inr (k, s')"
  shows "grid c n s'"
  using assms
proof (induction tbl)
  case Nil
  then show ?case by simp
next
  case (Cons a tbl)
  obtain r func where a: "a = (r, func)" by (cases a)
  show ?case
  proof (cases "r ctx")
    case None
    with Cons a show ?thesis by simp
  next
    case (Some m)
    obtain l g where m: "m = (l, g)" by (cases m)
    show ?thesis
    proof (cases func)
      case None
      with Cons.prems a Some m show ?thesis by simp
    next
      case (Some f)
      with Cons.prems(1) a have "keeps_grid f" by simp
      with Cons.prems(2,3) a \<open>r ctx = Some m\<close> m Some show ?thesis
        by (auto simp: keeps_grid_def split: sum.splits)
    qed
  qed
qed

lemma grid_sequence:
  "grid c n s \<Longrightarrow> sequence s data i = Inr (k, s') \<Longrightarrow> grid c n s'"
  using grid_first_match [OF keeps_grid_control]
  by (auto simp: sequence_def Let_def split: if_splits)

lemma grid_pre:
  "grid c n s \<Longrightarrow> pre s data i = Inr (p, s') \<Longrightarrow> grid c n s'"
  by (auto simp: pre_def Let_def simp del: puts.simps split: if_splits sum.splits
        dest: grid_sequence grid_move grid_puts_col)


lemma grid_append_loop:
  "grid c n s \<Longrightarrow> append_loop s data i = Inr s' \<Longrightarrow> grid c n s'"
proof (induction s data i rule: append_loop.induct)
  case (1 s data i)
  show ?case
  proof (cases "i < length data")
    case False
    with "1.prems" show ?thesis by (subst (asm) append_loop.simps) simp
  next
    case True
    with "1.prems"(2) obtain p s1 where p: "pre s data i = Inr (p, s1)"
      by (subst (asm) append_loop.simps) (auto split: sum.splits)
    have g1: "grid c n s1" using "1.prems"(1) p by (rule grid_pre)
    show ?thesis
    proof (cases p)
      case None
      with "1.prems"(2) True p obtain s2 where s2: "puts s1 [data ! i] True = Inr s2"
        and rest: "append_loop s2 data (i + 1) = Inr s'"
        by (subst (asm) append_loop.simps) (auto simp del: puts.simps split: sum.splits)
      from g1 s2 have "grid c n s2" by (rule grid_puts)
      with "1.IH"(1) [OF True p refl None s2] rest show ?thesis by simp
    next
      case (Some k)
      show ?thesis
      proof (cases "k = 0")
        case False
        with "1.prems"(2) True p Some have "append_loop s1 data (i + k) = Inr s'"
          by (subst (asm) append_loop.simps) simp
        with "1.IH"(3) [OF True p refl Some False] g1 show ?thesis by simp
      next
        case k0: True
        show ?thesis
        proof (cases "int i > int (length data) - 8")
          case True
          with "1.prems"(2) \<open>i < length data\<close> p Some k0 have "s' = s1\<lparr>pending := drop i data\<rparr>"
            by (subst (asm) append_loop.simps) simp
          with g1 show ?thesis by simp
        next
          case False
          with "1.prems"(2) \<open>i < length data\<close> p Some k0 have rest: "append_loop s1 data (i + 1) = Inr s'"
            by (subst (asm) append_loop.simps) simp
          from False have "\<not> int (length data) - 8 < int i" by simp
          from "1.IH"(2) [OF \<open>i < length data\<close> p refl Some k0 this] g1 rest show ?thesis by simp
        qed
      qed
    qed
  qed
qed

lemma grid_append_chunk:
  "grid c n s \<Longrightarrow> append_chunk s data = Inr s' \<Longrightarrow> grid c n s'"
  using grid_append_loop [of c n "s\<lparr>pending := []\<rparr>"] by (simp add: append_chunk_def)

lemma grid_append_all:
  "grid c n s \<Longrightarrow> append_all s ds = Inr s' \<Longrightarrow> grid c n s'"
proof (induction ds arbitrary: s)
  case Nil
  then show ?case by simp
next
  case (Cons d ds)
  from Cons.prems(2) obtain s1 where "append_chunk s d = Inr s1" "append_all s1 ds = Inr s'"
    by (auto split: sum.splits)
  with Cons.prems(1) Cons.IH show ?case using grid_append_chunk by blast
qed

lemma length_dump:
  assumes "grid c n s"
  shows "length (dump s) = nat n * (nat c + 1)"
proof -
  have aux: "list_all (\<lambda>x. length x = k) xs \<Longrightarrow>
        length (concat (map (\<lambda>r. r @ [CHR 0x0A]) xs)) = length xs * (k + 1)" for xs :: "string list" and k
    by (induction xs) simp_all
  from assms have "list_all (\<lambda>x. length x = nat c) (buf s)" and "length (buf s) = nat n"
    by (simp_all add: grid_def)
  with aux [of "nat c" "buf s"] show ?thesis by (simp add: dump_def)
qed

subsection \<open>Moves inside the scroll region and erasure cell by cell\<close>

lemma move_inside:
  "fst (scroll s) \<le> r \<Longrightarrow> r \<le> snd (scroll s) \<Longrightarrow> 1 \<le> c \<Longrightarrow> c \<le> cols s \<Longrightarrow>
   move s (Some r) (Some c) False = Inr (s\<lparr>row := r, col := c\<rparr>)"
  by (simp add: move_def move_target_def Let_def)

lemma move_wrap:
  "c = cols s + 1 \<Longrightarrow> 1 \<le> cols s \<Longrightarrow> fst (scroll s) \<le> r + 1 \<Longrightarrow> r + 1 \<le> snd (scroll s) \<Longrightarrow>
   move s (Some r) (Some c) False = Inr (s\<lparr>row := r + 1, col := 1\<rparr>)"
  by (simp add: move_def move_target_def Let_def)

lemma py_index_nonneg: "0 \<le> i \<Longrightarrow> i < int n \<Longrightarrow> py_index n i = Some (nat i)"
  by (simp add: py_index_def)

lemma grid_row_length: "grid c n s \<Longrightarrow> 1 \<le> r \<Longrightarrow> r \<le> n \<Longrightarrow> length (buf s ! nat (r - 1)) = nat c"
  by (auto simp: grid_def list_all_length)

lemma puts_one_inside:
  assumes "grid c n s" "1 \<le> row s" "row s \<le> n" "1 \<le> col s" "col s < c"
    "fst (scroll s) \<le> row s" "row s \<le> snd (scroll s)"
  shows "puts s [x] True = Inr (s\<lparr>col := col s + 1, buf := put_cell (buf s) (row s) (col s) x\<rparr>)"
proof -
  have i: "py_index (length (buf s)) (row s - 1) = Some (nat (row s - 1))"
    using assms by (intro py_index_nonneg) (auto simp: grid_def)
  have j: "py_index (length (buf s ! nat (row s - 1))) (col s - 1) = Some (nat (col s - 1))"
    using assms grid_row_length [OF assms(1-3)] by (intro py_index_nonneg) auto
  have c: "cols s = c" using assms(1) by (simp add: grid_def)
  let ?s1 = "s\<lparr>buf := put_cell (buf s) (row s) (col s) x\<rparr>"
  have "move ?s1 (Some (row s)) (Some (col s + 1)) False = Inr (?s1\<lparr>row := row s, col := col s + 1\<rparr>)"
    using assms c by (intro move_inside) auto
  then show ?thesis using i j by (simp add: put_cell_def)
qed

lemma puts_one_wrap:
  assumes "grid c n s" "1 \<le> row s" "row s \<le> n" "1 \<le> col s" "col s = c"
    "fst (scroll s) \<le> row s" "row s < snd (scroll s)"
  shows "puts s [x] True = Inr (s\<lparr>row := row s + 1, col := 1, buf := put_cell (buf s) (row s) (col s) x\<rparr>)"
proof -
  have i: "py_index (length (buf s)) (row s - 1) = Some (nat (row s - 1))"
    using assms by (intro py_index_nonneg) (auto simp: grid_def)
  have j: "py_index (length (buf s ! nat (row s - 1))) (col s - 1) = Some (nat (col s - 1))"
    using assms grid_row_length [OF assms(1-3)] by (intro py_index_nonneg) auto
  have c: "cols s = c" using assms(1) by (simp add: grid_def)
  let ?s1 = "s\<lparr>buf := put_cell (buf s) (row s) (col s) x\<rparr>"
  have "move ?s1 (Some (row s)) (Some (col s + 1)) False = Inr (?s1\<lparr>row := row s + 1, col := 1\<rparr>)"
    using assms c by (intro move_wrap) auto
  then show ?thesis using i j by (simp add: put_cell_def)
qed

lemma grid_put_cell: "grid c n s \<Longrightarrow> grid c n (s\<lparr>buf := put_cell (buf s) r k x\<rparr>)"
  unfolding put_cell_def by (rule grid_update_cell)

lemma erase_cell:
  assumes "grid c n s" "1 \<le> r" "r \<le> n" "1 \<le> k" "k \<le> c"
    "fst (scroll s) \<le> r" "r \<le> snd (scroll s)" "k < c \<or> r < snd (scroll s)"
  shows "\<exists>rr cc. (case move s (Some r) (Some k) False of Inl e \<Rightarrow> Inl e | Inr s1 \<Rightarrow> puts s1 '' '' True) =
           Inr (s\<lparr>row := rr, col := cc, buf := put_cell (buf s) r k CHR '' ''\<rparr>)"
proof -
  have c: "cols s = c" using assms(1) by (simp add: grid_def)
  let ?s1 = "s\<lparr>row := r, col := k\<rparr>"
  have m: "move s (Some r) (Some k) False = Inr ?s1"
    using assms c by (intro move_inside) auto
  have g: "grid c n ?s1" using assms(1) by simp
  show ?thesis
  proof (cases "k < c")
    case True
    have "puts ?s1 '' '' True = Inr (?s1\<lparr>col := col ?s1 + 1, buf := put_cell (buf ?s1) (row ?s1) (col ?s1) CHR '' ''\<rparr>)"
      using g assms True by (intro puts_one_inside [of c n]) auto
    with m show ?thesis by (auto simp del: puts.simps)
  next
    case False
    with assms have "k = c" "r < snd (scroll s)" by auto
    have "puts ?s1 '' '' True = Inr (?s1\<lparr>row := row ?s1 + 1, col := 1, buf := put_cell (buf ?s1) (row ?s1) (col ?s1) CHR '' ''\<rparr>)"
      using g assms \<open>k = c\<close> \<open>r < snd (scroll s)\<close> by (intro puts_one_wrap [of c n]) auto
    with m show ?thesis by (auto simp del: puts.simps)
  qed
qed

lemma blanked_refl: "blanked b b {}"
  by (simp add: blanked_def)

lemma nth_update_cases: "k < length xs \<Longrightarrow> xs[p := y] ! k = (if k = p then y else xs ! k)"
  by (cases "k = p") simp_all

lemma grid_cong:
  "cols s' = cols s \<Longrightarrow> rows s' = rows s \<Longrightarrow> buf s' = buf s \<Longrightarrow> grid c n s' = grid c n s"
  by (simp add: grid_def)

lemma blanked_put_cell:
  assumes "blanked b B S"
  shows "blanked b (put_cell B r k CHR '' '') (insert (nat (r - 1), nat (k - 1)) S)"
  using assms by (auto simp: blanked_def put_cell_def nth_update_cases)

lemma erase_cols_blanked:
  assumes "grid c n s" "1 \<le> r" "r \<le> n" "fst (scroll s) \<le> r" "r \<le> snd (scroll s)"
    "\<forall>k \<in> set ks. 1 \<le> k \<and> k \<le> c \<and> (k < c \<or> r < snd (scroll s))"
    "blanked b (buf s) S"
  shows "\<exists>rr cc B. erase_cols s r ks = Inr (s\<lparr>row := rr, col := cc, buf := B\<rparr>) \<and>
           blanked b B (S \<union> (\<lambda>k. (nat (r - 1), nat (k - 1))) ` set ks)"
  using assms
proof (induction ks arbitrary: s S)
  case Nil
  have "s\<lparr>row := row s, col := col s, buf := buf s\<rparr> = s" by simp
  with Nil show ?case by (metis (no_types) erase_cols.simps(1) image_empty list.set(1) sup_bot.right_neutral)
next
  case (Cons k ks)
  from Cons.prems have k: "1 \<le> k" "k \<le> c" "k < c \<or> r < snd (scroll s)" by auto
  from erase_cell [OF Cons.prems(1-3) k(1,2) Cons.prems(4,5) k(3)]
  obtain rr cc where step:
    "(case move s (Some r) (Some k) False of Inl e \<Rightarrow> Inl e | Inr s1 \<Rightarrow> puts s1 '' '' True) =
       Inr (s\<lparr>row := rr, col := cc, buf := put_cell (buf s) r k CHR '' ''\<rparr>)" by blast
  let ?s2 = "s\<lparr>row := rr, col := cc, buf := put_cell (buf s) r k CHR '' ''\<rparr>"
  have g2: "grid c n ?s2"
    using grid_put_cell [OF Cons.prems(1), of r k "CHR '' ''"]
      grid_cong [of ?s2 "s\<lparr>buf := put_cell (buf s) r k CHR '' ''\<rparr>" c n] by simp
  have b2: "blanked b (buf ?s2) (insert (nat (r - 1), nat (k - 1)) S)"
    using blanked_put_cell [OF Cons.prems(7)] by simp
  have "\<exists>rr' cc' B. erase_cols ?s2 r ks = Inr (?s2\<lparr>row := rr', col := cc', buf := B\<rparr>) \<and>
           blanked b B (insert (nat (r - 1), nat (k - 1)) S \<union> (\<lambda>k. (nat (r - 1), nat (k - 1))) ` set ks)"
    using Cons.prems by (intro Cons.IH [OF g2 _ _ _ _ _ b2]) auto
  then obtain rr' cc' B where rest: "erase_cols ?s2 r ks = Inr (?s2\<lparr>row := rr', col := cc', buf := B\<rparr>)"
    and B: "blanked b B (insert (nat (r - 1), nat (k - 1)) S \<union> (\<lambda>k. (nat (r - 1), nat (k - 1))) ` set ks)"
    by blast
  have "erase_cols s r (k # ks) = Inr (s\<lparr>row := rr', col := cc', buf := B\<rparr>)"
    using step rest by (auto simp del: puts.simps split: sum.splits)
  moreover have "insert (nat (r - 1), nat (k - 1)) S \<union> (\<lambda>k. (nat (r - 1), nat (k - 1))) ` set ks
      = S \<union> (\<lambda>k. (nat (r - 1), nat (k - 1))) ` set (k # ks)" by auto
  ultimately show ?case using B by metis
qed


lemma erase_rows_blanked:
  assumes "grid c n s"
    "\<forall>r \<in> set rs. 1 \<le> r \<and> r \<le> n \<and> fst (scroll s) \<le> r \<and> r \<le> snd (scroll s)"
    "\<forall>r \<in> set rs. \<forall>k \<in> set ks. 1 \<le> k \<and> k \<le> c \<and> (k < c \<or> r < snd (scroll s))"
    "blanked b (buf s) S"
  shows "\<exists>rr cc B. erase_rows s rs ks = Inr (s\<lparr>row := rr, col := cc, buf := B\<rparr>) \<and>
           blanked b B (S \<union> (\<lambda>(r, k). (nat (r - 1), nat (k - 1))) ` (set rs \<times> set ks))"
  using assms
proof (induction rs arbitrary: s S)
  case Nil
  have "s\<lparr>row := row s, col := col s, buf := buf s\<rparr> = s" by simp
  moreover have "S \<union> (\<lambda>(r, k). (nat (r - 1), nat (k - 1))) ` (set [] \<times> set ks) = S" by simp
  ultimately show ?case using Nil.prems(4) by (metis erase_rows.simps(1))
next
  case (Cons r rs)
  from Cons.prems(2) have r: "1 \<le> r" "r \<le> n" "fst (scroll s) \<le> r" "r \<le> snd (scroll s)" by auto
  from Cons.prems(3) have ks: "\<forall>k \<in> set ks. 1 \<le> k \<and> k \<le> c \<and> (k < c \<or> r < snd (scroll s))" by auto
  let ?S1 = "S \<union> (\<lambda>k. (nat (r - 1), nat (k - 1))) ` set ks"
  from erase_cols_blanked [OF Cons.prems(1) r ks Cons.prems(4)]
  obtain rr cc B where step: "erase_cols s r ks = Inr (s\<lparr>row := rr, col := cc, buf := B\<rparr>)"
    and B: "blanked b B ?S1" by blast
  let ?s1 = "s\<lparr>row := rr, col := cc, buf := B\<rparr>"
  have g1: "grid c n ?s1" using Cons.prems(1) step by (rule grid_erase_cols)
  have "\<exists>rr' cc' B'. erase_rows ?s1 rs ks = Inr (?s1\<lparr>row := rr', col := cc', buf := B'\<rparr>) \<and>
           blanked b B' (?S1 \<union> (\<lambda>(r, k). (nat (r - 1), nat (k - 1))) ` (set rs \<times> set ks))"
    using Cons.prems B by (intro Cons.IH [OF g1]) auto
  then obtain rr' cc' B' where rest: "erase_rows ?s1 rs ks = Inr (?s1\<lparr>row := rr', col := cc', buf := B'\<rparr>)"
    and B': "blanked b B' (?S1 \<union> (\<lambda>(r, k). (nat (r - 1), nat (k - 1))) ` (set rs \<times> set ks))"
    by blast
  have "erase_rows s (r # rs) ks = Inr (s\<lparr>row := rr', col := cc', buf := B'\<rparr>)"
    using step rest by simp
  moreover have "?S1 \<union> (\<lambda>(r, k). (nat (r - 1), nat (k - 1))) ` (set rs \<times> set ks)
      = S \<union> (\<lambda>(r, k). (nat (r - 1), nat (k - 1))) ` (set (r # rs) \<times> set ks)" by auto
  ultimately show ?case using B' by metis
qed

lemma blanked_erased_rect:
  assumes "blanked b B ((\<lambda>(r, k). (nat (r - 1), nat (k - 1))) ` ({r0..r1 - 1} \<times> {k0..k1 - 1}))"
    and "1 \<le> r0" "1 \<le> k0"
  shows "B = erased_rect b (r0, k0) (r1, k1)"
proof (rule nth_equalityI)
  show len: "length B = length (erased_rect b (r0, k0) (r1, k1))"
    using assms(1) by (simp add: blanked_def erased_rect_def)
  fix i assume "i < length B"
  with assms(1) have i: "i < length b" by (simp add: blanked_def)
  show "B ! i = erased_rect b (r0, k0) (r1, k1) ! i"
  proof (rule nth_equalityI)
    show "length (B ! i) = length (erased_rect b (r0, k0) (r1, k1) ! i)"
      using assms(1) i by (simp add: blanked_def erased_rect_def)
    fix j assume "j < length (B ! i)"
    with assms(1) i have j: "j < length (b ! i)" by (simp add: blanked_def)
    have mem: "(i, j) \<in> (\<lambda>(r, k). (nat (r - 1), nat (k - 1))) ` ({r0..r1 - 1} \<times> {k0..k1 - 1})
        \<longleftrightarrow> r0 \<le> int i + 1 \<and> int i + 1 < r1 \<and> k0 \<le> int j + 1 \<and> int j + 1 < k1"
    proof
      assume "(i, j) \<in> (\<lambda>(r, k). (nat (r - 1), nat (k - 1))) ` ({r0..r1 - 1} \<times> {k0..k1 - 1})"
      then obtain r k where "r0 \<le> r" "r \<le> r1 - 1" "k0 \<le> k" "k \<le> k1 - 1" "i = nat (r - 1)" "j = nat (k - 1)"
        by auto
      with assms(2,3) show "r0 \<le> int i + 1 \<and> int i + 1 < r1 \<and> k0 \<le> int j + 1 \<and> int j + 1 < k1"
        by auto
    next
      assume a: "r0 \<le> int i + 1 \<and> int i + 1 < r1 \<and> k0 \<le> int j + 1 \<and> int j + 1 < k1"
      then have "(int i + 1, int j + 1) \<in> {r0..r1 - 1} \<times> {k0..k1 - 1}" by auto
      moreover have "(\<lambda>(r, k). (nat (r - 1), nat (k - 1))) (int i + 1, int j + 1) = (i, j)" by simp
      ultimately show "(i, j) \<in> (\<lambda>(r, k). (nat (r - 1), nat (k - 1))) ` ({r0..r1 - 1} \<times> {k0..k1 - 1})"
        by (metis (no_types, lifting) image_eqI)
    qed
    from assms(1) i j have "B ! i ! j =
      (if (i, j) \<in> (\<lambda>(r, k). (nat (r - 1), nat (k - 1))) ` ({r0..r1 - 1} \<times> {k0..k1 - 1})
       then CHR '' '' else b ! i ! j)"
      by (simp add: blanked_def)
    with mem i j show "B ! i ! j = erased_rect b (r0, k0) (r1, k1) ! i ! j"
      by (simp add: erased_rect_def)
  qed
qed

lemma erase_in_region:
  assumes "grid c n s"
    and "1 \<le> fst start" and "fst stop \<le> n + 1"
    and "fst (scroll s) \<le> fst start" and "fst stop \<le> snd (scroll s) + 1"
    and "1 \<le> snd start" and "snd stop \<le> c + 1"
    and "snd stop \<le> c \<or> fst stop \<le> snd (scroll s)"
  shows "erase s start stop = Inr (s\<lparr>buf := erased_rect (buf s) start stop\<rparr>)"
proof -
  let ?rs = "[fst start..fst stop - 1]" and ?ks = "[snd start..snd stop - 1]"
  have rs: "\<forall>r \<in> set ?rs. 1 \<le> r \<and> r \<le> n \<and> fst (scroll s) \<le> r \<and> r \<le> snd (scroll s)"
    using assms by auto
  have ks: "\<forall>r \<in> set ?rs. \<forall>k \<in> set ?ks. 1 \<le> k \<and> k \<le> c \<and> (k < c \<or> r < snd (scroll s))"
    using assms by auto
  from erase_rows_blanked [OF assms(1) rs ks blanked_refl]
  obtain rr cc B where run: "erase_rows s ?rs ?ks = Inr (s\<lparr>row := rr, col := cc, buf := B\<rparr>)"
    and B: "blanked (buf s) B ({} \<union> (\<lambda>(r, k). (nat (r - 1), nat (k - 1))) ` (set ?rs \<times> set ?ks))"
    by blast
  from B have "blanked (buf s) B ((\<lambda>(r, k). (nat (r - 1), nat (k - 1))) ` ({fst start..fst stop - 1} \<times> {snd start..snd stop - 1}))"
    by simp
  from blanked_erased_rect [OF this] assms have "B = erased_rect (buf s) (fst start, snd start) (fst stop, snd stop)"
    by auto
  with run show ?thesis by (simp add: erase_def)
qed

lemma sequence_erase_line:
  "sequence s (ESCAPE # ''[K'') 0 =
     (case erase s (row s, col s) (row s + 1, cols s) of Inl e \<Rightarrow> Inl e | Inr s' \<Rightarrow> Inr (3, s'))"
  by (simp add: sequence_def control_def re_lit_def re_num_def re_num2_def re_sgr_def is_digit_def
        numeral_3_eq_3 split: sum.splits)

lemma append_erase_line:
  assumes "pending s = []" and "erase s (row s, col s) (row s + 1, cols s) = Inr s'"
  shows "append_chunk s (ESCAPE # ''[K'') = Inr s'"
proof -
  have s: "s\<lparr>pending := []\<rparr> = s" using assms(1) by (cases s) simp
  have p: "pre s (ESCAPE # ''[K'') 0 = Inr (Some 3, s')"
    using assms(2) by (simp add: pre_def sequence_erase_line)
  have "append_loop s' (ESCAPE # ''[K'') 3 = Inr s'"
    by (subst append_loop.simps) simp
  then have "append_loop s (ESCAPE # ''[K'') 0 = Inr s'"
    using p by (subst append_loop.simps) simp
  then show ?thesis unfolding append_chunk_def assms(1) s by simp
qed

lemma erased_rect_nth:
  "i < length b \<Longrightarrow> j < length (b ! i) \<Longrightarrow>
   erased_rect b start stop ! i ! j =
     (if fst start \<le> int i + 1 \<and> int i + 1 < fst stop \<and> snd start \<le> int j + 1 \<and> int j + 1 < snd stop
      then CHR '' '' else b ! i ! j)"
  by (simp add: erased_rect_def)

lemma del_last_ok:
  assumes "grid c n s" "1 \<le> n"
  shows "\<exists>s'. del_lines s 1 (Some 0) = Inr s' \<and> cols s' = cols s \<and> rows s' = rows s \<and>
           scroll s' = scroll s \<and> row s' = row s \<and> col s' = col s \<and> pending s' = pending s"
proof -
  from assms have "py_index (length (buf s)) (- 1) = Some (nat (int (length (buf s)) - 1))"
    by (auto simp: py_index_def grid_def)
  then show ?thesis
    by (simp add: del_lines_def py_del_def)
qed

subsection \<open>Plain text\<close>

lemma pre_plain: "plain (data ! i) \<Longrightarrow> pre s data i = Inr (None, s)"
  by (simp add: pre_def plain_def Let_def)

lemma puts_Cons:
  "puts s (x # xs) mv = (case puts s [x] mv of Inl e \<Rightarrow> Inl e | Inr s' \<Rightarrow> puts s' xs mv)"
  by (simp add: Let_def split: option.splits sum.splits)

lemma puts_append:
  "puts s (xs @ ys) mv = (case puts s xs mv of Inl e \<Rightarrow> Inl e | Inr s' \<Rightarrow> puts s' ys mv)"
proof (induction xs arbitrary: s)
  case Nil
  then show ?case by simp
next
  case (Cons x xs)
  have "puts s ((x # xs) @ ys) mv =
      (case puts s [x] mv of Inl e \<Rightarrow> Inl e | Inr s' \<Rightarrow> puts s' (xs @ ys) mv)"
    using puts_Cons [of s x "xs @ ys" mv] by simp
  also have "\<dots> = (case puts s [x] mv of Inl e \<Rightarrow> Inl e
      | Inr s' \<Rightarrow> (case puts s' xs mv of Inl e \<Rightarrow> Inl e | Inr s'' \<Rightarrow> puts s'' ys mv))"
    by (simp only: Cons.IH)
  also have "\<dots> = (case puts s (x # xs) mv of Inl e \<Rightarrow> Inl e | Inr s' \<Rightarrow> puts s' ys mv)"
    by (subst (2) puts_Cons) (simp split: sum.splits)
  finally show ?case .
qed

lemma append_loop_plain:
  "\<forall>k. i \<le> k \<and> k < length data \<longrightarrow> plain (data ! k) \<Longrightarrow>
   append_loop s data i = puts s (drop i data) True"
proof (induction s data i rule: append_loop.induct)
  case (1 s data i)
  show ?case
  proof (cases "i < length data")
    case False
    then show ?thesis by (subst append_loop.simps) simp
  next
    case True
    with "1.prems" have p: "pre s data i = Inr (None, s)" by (intro pre_plain) simp
    have d: "drop i data = data ! i # drop (Suc i) data"
      using True by (simp add: Cons_nth_drop_Suc)
    show ?thesis
    proof (cases "puts s [data ! i] True")
      case (Inl e)
      with True p d show ?thesis
        by (subst append_loop.simps, subst d, subst puts_Cons) (simp del: puts.simps)
    next
      case (Inr s2)
      have "append_loop s2 data (i + 1) = puts s2 (drop (i + 1) data) True"
        using "1.prems" by (intro "1.IH"(1) [OF True p refl refl Inr]) simp
      with True p d Inr show ?thesis
        by (subst append_loop.simps, subst d, subst puts_Cons) (simp del: puts.simps)
    qed
  qed
qed

lemma row_write_step:
  "j < length R \<Longrightarrow>
   take (Suc j) (R[j := x]) @ xs @ drop (Suc j + length xs) (R[j := x]) =
   take j R @ (x # xs) @ drop (j + length (x # xs)) R"
  by (simp add: take_Suc_conv_app_nth)

lemma puts_within:
  assumes "grid c n s" "1 \<le> row s" "row s \<le> n" "fst (scroll s) \<le> row s" "row s \<le> snd (scroll s)"
    "1 \<le> col s" "col s + int (length xs) \<le> c"
  shows "puts s xs True =
     Inr (s\<lparr>col := col s + int (length xs),
            buf := (buf s)[nat (row s - 1) :=
               take (nat (col s - 1)) (buf s ! nat (row s - 1)) @ xs @
               drop (nat (col s - 1) + length xs) (buf s ! nat (row s - 1))]\<rparr>)"
  using assms
proof (induction xs arbitrary: s)
  case Nil
  then show ?case by simp
next
  case (Cons x xs)
  let ?i = "nat (row s - 1)" and ?j = "nat (col s - 1)"
  let ?R = "buf s ! ?i"
  let ?s1 = "s\<lparr>col := col s + 1, buf := put_cell (buf s) (row s) (col s) x\<rparr>"
  have i: "?i < length (buf s)" using Cons.prems by (auto simp: grid_def)
  have R: "length ?R = nat c" using Cons.prems by (intro grid_row_length [of c n]) auto
  have j: "?j < length ?R" using Cons.prems R by auto
  have one: "puts s [x] True = Inr ?s1"
    using Cons.prems by (intro puts_one_inside [of c n]) auto
  have g1: "grid c n ?s1"
    using grid_put_cell [OF Cons.prems(1), of "row s" "col s" x]
      grid_cong [of ?s1 "s\<lparr>buf := put_cell (buf s) (row s) (col s) x\<rparr>" c n] by simp
  have R1: "buf ?s1 ! ?i = ?R[?j := x]" using i by (simp add: put_cell_def)
  have j1: "nat (col ?s1 - 1) = Suc ?j" using Cons.prems by auto
  have "puts ?s1 xs True =
     Inr (?s1\<lparr>col := col ?s1 + int (length xs),
            buf := (buf ?s1)[nat (row ?s1 - 1) :=
               take (nat (col ?s1 - 1)) (buf ?s1 ! nat (row ?s1 - 1)) @ xs @
               drop (nat (col ?s1 - 1) + length xs) (buf ?s1 ! nat (row ?s1 - 1))]\<rparr>)"
    using Cons.prems by (intro Cons.IH [OF g1]) auto
  also have "buf ?s1 ! nat (row ?s1 - 1) = ?R[?j := x]" using R1 by simp
  also have "take (nat (col ?s1 - 1)) (?R[?j := x]) @ xs @ drop (nat (col ?s1 - 1) + length xs) (?R[?j := x])
      = take ?j ?R @ (x # xs) @ drop (?j + length (x # xs)) ?R"
    unfolding j1 using j by (rule row_write_step)
  finally have rest: "puts ?s1 xs True =
     Inr (?s1\<lparr>col := col ?s1 + int (length xs),
            buf := (buf ?s1)[nat (row ?s1 - 1) := take ?j ?R @ (x # xs) @ drop (?j + length (x # xs)) ?R]\<rparr>)" .
  have "puts s (x # xs) True = puts ?s1 xs True"
    by (subst puts_Cons) (simp add: one del: puts.simps)
  also have "\<dots> = Inr (?s1\<lparr>col := col ?s1 + int (length xs),
            buf := (buf ?s1)[nat (row ?s1 - 1) := take ?j ?R @ (x # xs) @ drop (?j + length (x # xs)) ?R]\<rparr>)"
    by (rule rest)
  also have "?s1\<lparr>col := col ?s1 + int (length xs),
            buf := (buf ?s1)[nat (row ?s1 - 1) := take ?j ?R @ (x # xs) @ drop (?j + length (x # xs)) ?R]\<rparr>
      = s\<lparr>col := col s + int (length (x # xs)),
            buf := (buf s)[?i := take ?j ?R @ (x # xs) @ drop (?j + length (x # xs)) ?R]\<rparr>"
    by (simp add: put_cell_def)
  finally show ?case .
qed

lemma puts_wrap_line:
  assumes g: "grid c n s" and c: "2 \<le> c" and n: "2 \<le> n"
    and sc: "scroll s = (1, n)" and rc: "row s = 1" "col s = 1"
    and len: "length xs = nat c - 1"
  shows "\<exists>s'. puts s (xs @ [y, z]) True = Inr s' \<and> grid c n s' \<and> row s' = 2 \<and> col s' = 2 \<and>
           buf s' ! 0 = xs @ [y] \<and> buf s' ! 1 ! 0 = z"
proof -
  let ?R = "buf s ! 0"
  let ?b1 = "(buf s)[0 := xs @ drop (length xs) ?R]"
  let ?s1 = "s\<lparr>col := c, buf := ?b1\<rparr>"
  have lb: "length (buf s) = nat n" using g by (simp add: grid_def)
  have R: "length ?R = nat c" using grid_row_length [OF g, of 1] n by simp
  have "puts s xs True =
     Inr (s\<lparr>col := col s + int (length xs),
            buf := (buf s)[nat (row s - 1) :=
               take (nat (col s - 1)) (buf s ! nat (row s - 1)) @ xs @
               drop (nat (col s - 1) + length xs) (buf s ! nat (row s - 1))]\<rparr>)"
    using g c n sc rc len by (intro puts_within [of c n]) auto
  then have p1: "puts s xs True = Inr ?s1" using rc len c by simp
  have g1: "grid c n ?s1" using g p1 by (rule grid_puts)
  let ?s2 = "?s1\<lparr>row := row ?s1 + 1, col := 1, buf := put_cell (buf ?s1) (row ?s1) (col ?s1) y\<rparr>"
  have p2: "puts ?s1 [y] True = Inr ?s2"
    using g1 c n sc rc by (intro puts_one_wrap [of c n]) auto
  have g2: "grid c n ?s2" using g1 p2 by (rule grid_puts)
  let ?s3 = "?s2\<lparr>col := col ?s2 + 1, buf := put_cell (buf ?s2) (row ?s2) (col ?s2) z\<rparr>"
  have p3: "puts ?s2 [z] True = Inr ?s3"
    using g2 c n sc rc by (intro puts_one_inside [of c n]) auto
  have g3: "grid c n ?s3" using g2 p3 by (rule grid_puts)
  have run: "puts s (xs @ [y, z]) True = Inr ?s3"
    using puts_append [of s xs "[y, z]" True] puts_Cons [of ?s1 y "[z]" True] p1 p2 p3
    by (simp del: puts.simps)
  have k: "nat (c - 1) = length xs" using len c by simp
  have "length xs < length ?R" using R len c by simp
  from Cons_nth_drop_Suc [OF this] have d: "drop (length xs) ?R = [?R ! length xs]"
    using R len c by simp
  have "buf ?s3 ! 0 = (xs @ drop (length xs) ?R)[nat (c - 1) := y]"
    using lb n rc by (simp add: put_cell_def nth_update_cases)
  then have row0: "buf ?s3 ! 0 = xs @ [y]"
    unfolding d k by simp
  have row1: "buf ?s3 ! 1 ! 0 = z"
    using lb n rc c grid_row_length [OF g, of 2] by (simp add: put_cell_def nth_update_cases)
  show ?thesis using run g3 row0 row1 rc by (intro exI [of _ ?s3]) simp
qed

section \<open>Properties\<close>

subsection \<open>Scrolling\<close>

text \<open>
  C1. With the default full-height scroll region, a motion past the last row should
  discard row 1, shift every other row up by one, leave a blank last row and clamp
  the cursor to the last row. On a grid of three rows holding \<open>a\<close>, \<open>b\<close>, \<open>c\<close>, the
  line feed on the last row leaves rows 1 and 2 in place and blanks row 3:
  \<open>move\<close> passes \<open>start - 1\<close> to \<open>del_lines\<close>, which subtracts one again, so the
  index is \<open>-1\<close>, the last row of the buffer.
\<close>

theorem scroll_default_region_example:
  "append_chunk (init 3 3) [CHR ''a'', CHR 0x0A, CHR ''b'', CHR 0x0A, CHR ''c'', CHR 0x0A] =
     Inr \<lparr>cols = 3, rows = 3, scroll = (1, 3), row = 3, col = 1, pending = [],
          buf = [''a  '', ''b  '', ''   '']\<rparr>"
  by code_simp

text \<open>
  C3. With a scroll region whose top is below row 1, a line feed past the bottom
  should leave every row outside the region as it was. With the region rows 2 to 3 of
  a grid of four rows, row 1 holding \<open>a\<close>, the line feed on row 3 deletes row 1 (the
  row above the region, index \<open>start - 2\<close>) and moves the content of row 2 into it.
\<close>

theorem scroll_region_example:
  "append_chunk (init 2 4)
     (''a'' @ [ESCAPE] @ ''[2;3r'' @ [CHR 0x0A] @ ''b'' @ [CHR 0x0A] @ ''c'' @ [CHR 0x0A]) =
     Inr \<lparr>cols = 2, rows = 4, scroll = (2, 3), row = 3, col = 1, pending = [],
          buf = [''b '', ''c '', ''  '', ''  '']\<rparr>"
  by code_simp

subsection \<open>Exceptions\<close>

text \<open>
  C2. No input should make \<open>append\<close> raise. The single-step cursor move \<open>ESC [ A\<close>
  calls \<open>rel(row=-1)\<close>, which leaves \<open>col\<close> at \<open>None\<close>, and \<open>self.col + col\<close> raises
  TypeError.
\<close>

theorem append_cursor_up_raises:
  "append_chunk (init 80 24) ([ESCAPE] @ ''[A'') = Inl TypeError"
  by code_simp

subsection \<open>Chunking\<close>

text \<open>
  C4. Feeding a text in one call or in fragments should end in the same state. The
  colour sequence \<open>ESC [ 3 8 ; 5 ; 1 m\<close> is consumed without effect in one call; split
  before its last character, the first fragment has eight characters, the test
  \<open>i > len(data) - 8\<close> is false at \<open>i = 0\<close>, the introducer is skipped and the rest is
  written to the grid.
\<close>

theorem chunking_split_example:
  "append_all (init 10 2) [[ESCAPE] @ ''[38;5;1m''] = Inr (init 10 2) \<and>
   append_all (init 10 2) [[ESCAPE] @ ''[38;5;1'', ''m''] =
     Inr \<lparr>cols = 10, rows = 2, scroll = (1, 2), row = 1, col = 9, pending = [],
          buf = [''[38;5;1m  '', ''          '']\<rparr>"
  by code_simp

subsection \<open>Relative moves\<close>

text \<open>
  C5, as stated: a relative move with a zero delta on an axis resets that axis to 1.
  It does not: \<open>self.row + row or 1\<close> is \<open>(self.row + row) or 1\<close>, and with the
  cursor at row 2, column 2 the move by \<open>(0, 0)\<close> leaves the cursor where it is.
\<close>

theorem rel_zero_delta_counterexample:
  "rel \<lparr>cols = 3, rows = 3, scroll = (1, 3), row = 2, col = 2, pending = [],
         buf = [''   '', ''   '', ''   '']\<rparr> (Some 0) (Some 0) =
     Inr \<lparr>cols = 3, rows = 3, scroll = (1, 3), row = 2, col = 2, pending = [],
          buf = [''   '', ''   '', ''   '']\<rparr>"
  by code_simp

text \<open>
  C5, amended: on a well-shaped grid with the default scroll region and the cursor
  within the grid, a relative move whose delta on an axis is zero leaves that axis
  unchanged. The move by \<open>(0, 0)\<close> changes nothing. With a zero column delta the
  column is kept for every row delta, and the row becomes \<open>row + d_row\<close> clamped to
  \<open>1..rows\<close>. With a zero row delta the row is kept whenever the column does not
  wrap, \<open>0 \<le> col + d_col \<le> cols\<close>, and the column becomes \<open>col + d_col\<close>, or 1 when
  that sum is 0, the one place where \<open>or 1\<close> acts.
\<close>

theorem rel_zero_delta:
  assumes "grid c n s" and "scroll s = (1, n)"
    and "1 \<le> row s" and "row s \<le> n" and "1 \<le> col s" and "col s \<le> c"
  shows "rel s (Some 0) (Some 0) = Inr s \<and>
         (\<exists>s'. rel s (Some dr) (Some 0) = Inr s' \<and> col s' = col s \<and>
               row s' = max 1 (min n (row s + dr))) \<and>
         (0 \<le> col s + dc \<and> col s + dc \<le> c \<longrightarrow>
            rel s (Some 0) (Some dc) =
              Inr (s\<lparr>col := (if col s + dc = 0 then 1 else col s + dc)\<rparr>))"
proof -
  have c: "cols s = c" using assms(1) by (simp add: grid_def)
  have n: "1 \<le> n" using assms(3,4) by simp
  have a: "rel s (Some 0) (Some 0) = Inr s"
    using assms c by (simp add: rel_def move_def move_target_def py_or_def Let_def)
  have b: "\<exists>s'. rel s (Some dr) (Some 0) = Inr s' \<and> col s' = col s \<and>
               row s' = max 1 (min n (row s + dr))"
  proof (cases "row s + dr > n")
    case True
    from del_last_ok [OF assms(1) n] obtain s1 where "del_lines s 1 (Some 0) = Inr s1" by blast
    with True assms c show ?thesis
      by (simp add: rel_def move_def move_target_def py_or_def Let_def)
  next
    case False
    with assms c show ?thesis
      by (auto simp: rel_def move_def move_target_def py_or_def Let_def)
  qed
  have d: "0 \<le> col s + dc \<and> col s + dc \<le> c \<longrightarrow>
            rel s (Some 0) (Some dc) =
              Inr (s\<lparr>col := (if col s + dc = 0 then 1 else col s + dc)\<rparr>)"
    using assms c by (auto simp: rel_def move_def move_target_def py_or_def Let_def)
  from a b d show ?thesis by blast
qed

text \<open>
  The amended C5 at row 2, column 2 of a grid of three rows and columns: the move by
  \<open>(0, 0)\<close>, up by five rows, and left by two columns.
\<close>

theorem rel_zero_delta_witness:
  "rel \<lparr>cols = 3, rows = 3, scroll = (1, 3), row = 2, col = 2, pending = [],
         buf = [''abc'', ''def'', ''ghi'']\<rparr> (Some 0) (Some 0) =
     Inr \<lparr>cols = 3, rows = 3, scroll = (1, 3), row = 2, col = 2, pending = [],
          buf = [''abc'', ''def'', ''ghi'']\<rparr> \<and>
   rel \<lparr>cols = 3, rows = 3, scroll = (1, 3), row = 2, col = 2, pending = [],
         buf = [''abc'', ''def'', ''ghi'']\<rparr> (Some (- 5)) (Some 0) =
     Inr \<lparr>cols = 3, rows = 3, scroll = (1, 3), row = 1, col = 2, pending = [],
          buf = [''abc'', ''def'', ''ghi'']\<rparr> \<and>
   rel \<lparr>cols = 3, rows = 3, scroll = (1, 3), row = 2, col = 2, pending = [],
         buf = [''abc'', ''def'', ''ghi'']\<rparr> (Some 0) (Some (- 2)) =
     Inr \<lparr>cols = 3, rows = 3, scroll = (1, 3), row = 2, col = 1, pending = [],
          buf = [''abc'', ''def'', ''ghi'']\<rparr>"
proof -
  let ?s = "\<lparr>cols = 3, rows = 3, scroll = (1, 3), row = 2, col = 2, pending = [],
         buf = [''abc'', ''def'', ''ghi'']\<rparr>"
  have g: "grid 3 3 ?s" by (simp add: grid_def)
  have up: "rel ?s (Some (- 5)) (Some 0) =
     Inr \<lparr>cols = 3, rows = 3, scroll = (1, 3), row = 1, col = 2, pending = [],
          buf = [''abc'', ''def'', ''ghi'']\<rparr>"
    by code_simp
  from rel_zero_delta [OF g, of "- 5" "- 2"] have
    "rel ?s (Some 0) (Some 0) = Inr ?s \<and>
     rel ?s (Some 0) (Some (- 2)) = Inr (?s\<lparr>col := 1\<rparr>)"
    by simp
  with up show ?thesis by simp
qed

subsection \<open>Backspace\<close>

text \<open>
  C6. A backspace at column 1 should leave the row unchanged and the column within
  \<open>1..cols\<close>. After \<open>abc\<close> and the home sequence the cursor is at row 1, column 1; the
  backspace sets the column to \<open>max(0, col - 1) = 0\<close> and the space it writes goes to
  index \<open>-1\<close> of the row, its last cell.
\<close>

theorem backspace_at_column_one_example:
  "append_chunk (init 3 2) (''abc'' @ [ESCAPE] @ ''[H'' @ [CHR 0x08]) =
     Inr \<lparr>cols = 3, rows = 2, scroll = (1, 2), row = 1, col = 0, pending = [],
          buf = [''ab '', ''   '']\<rparr>"
  by code_simp

subsection \<open>Erasure\<close>

text \<open>
  C7. For every rectangle within the grid and every scroll region, \<open>erase\<close> should
  blank exactly the cells of the half-open rectangle and restore the cursor. It
  loops over the cells of the rectangle but positions the cursor with \<open>move\<close>, which
  clamps the row to the scroll region: with the region rows 2 to 3, erasing the cell
  at row 1, column 1 leaves that cell and blanks the cell at row 2, column 1. Through
  \<open>append\<close>: after \<open>ab\<close> on row 1 and \<open>cd\<close> on row 2, home, and the region set to rows
  2 to 3, the sequence \<open>ESC [ K\<close> with the cursor on row 1 keeps \<open>ab\<close> and blanks
  \<open>cd\<close>.
\<close>

theorem erase_outside_region_example:
  "erase \<lparr>cols = 2, rows = 3, scroll = (2, 3), row = 1, col = 1, pending = [],
           buf = [''ab'', ''cd'', ''ef'']\<rparr> (1, 1) (2, 2) =
     Inr \<lparr>cols = 2, rows = 3, scroll = (2, 3), row = 1, col = 1, pending = [],
          buf = [''ab'', '' d'', ''ef'']\<rparr> \<and>
   append_chunk (init 3 3)
       (''ab'' @ [CHR 0x0A] @ ''cd'' @ [ESCAPE] @ ''[H'' @ [ESCAPE] @ ''[2;3r'' @ [ESCAPE] @ ''[K'') =
     Inr \<lparr>cols = 3, rows = 3, scroll = (2, 3), row = 1, col = 1, pending = [],
          buf = [''ab '', ''   '', ''   '']\<rparr>"
  by code_simp

text \<open>
  C10. With the cursor at \<open>(r, c)\<close>, \<open>r\<close> within the grid and the scroll region and
  \<open>1 \<le> c \<le> cols\<close>, the sequence \<open>ESC [ K\<close> blanks the cells of row \<open>r\<close> in the columns
  \<open>c\<close> to \<open>cols - 1\<close>; the cell in the last column of row \<open>r\<close> and every other row
  keep their content, and the cursor and the scroll region are as before.
\<close>

theorem erase_to_end_of_line:
  assumes "grid c n s" and "pending s = []"
    and "1 \<le> row s" and "row s \<le> n"
    and "fst (scroll s) \<le> row s" and "row s \<le> snd (scroll s)"
    and "1 \<le> col s" and "col s \<le> c"
  shows "\<exists>s'. append_chunk s (ESCAPE # ''[K'') = Inr s' \<and> grid c n s' \<and>
           row s' = row s \<and> col s' = col s \<and> scroll s' = scroll s \<and> pending s' = [] \<and>
           (\<forall>r k. 1 \<le> r \<and> r \<le> n \<and> 1 \<le> k \<and> k \<le> c \<longrightarrow>
              cell s' r k = (if r = row s \<and> col s \<le> k \<and> k < c then CHR '' '' else cell s r k))"
proof -
  have c: "cols s = c" using assms(1) by (simp add: grid_def)
  let ?s' = "s\<lparr>buf := erased_rect (buf s) (row s, col s) (row s + 1, cols s)\<rparr>"
  have e: "erase s (row s, col s) (row s + 1, cols s) = Inr ?s'"
    using assms c by (intro erase_in_region [of c n]) auto
  then have run: "append_chunk s (ESCAPE # ''[K'') = Inr ?s'"
    using assms(2) by (intro append_erase_line)
  have g: "grid c n ?s'" using assms(1) e by (rule grid_erase)
  have cells: "cell ?s' r k = (if r = row s \<and> col s \<le> k \<and> k < c then CHR '' '' else cell s r k)"
    if "1 \<le> r \<and> r \<le> n \<and> 1 \<le> k \<and> k \<le> c" for r k
  proof -
    from that assms(1) have i: "nat (r - 1) < length (buf s)" by (auto simp: grid_def)
    from that grid_row_length [OF assms(1), of r] have j: "nat (k - 1) < length (buf s ! nat (r - 1))"
      by auto
    from that show ?thesis
      using erased_rect_nth [OF i j, of "(row s, col s)" "(row s + 1, cols s)"] c
      by (auto simp: cell_def)
  qed
  show ?thesis using run g cells assms(2) by (intro exI [of _ ?s']) simp
qed

text \<open>C10 on a grid of two rows holding \<open>abc\<close> and \<open>def\<close>: the \<open>c\<close> stays.\<close>

theorem erase_to_end_of_line_witness:
  "grid 3 2 \<lparr>cols = 3, rows = 2, scroll = (1, 2), row = 1, col = 1, pending = [],
          buf = [''abc'', ''def'']\<rparr> \<and>
   append_chunk \<lparr>cols = 3, rows = 2, scroll = (1, 2), row = 1, col = 1, pending = [],
          buf = [''abc'', ''def'']\<rparr> (ESCAPE # ''[K'') =
     Inr \<lparr>cols = 3, rows = 2, scroll = (1, 2), row = 1, col = 1, pending = [],
          buf = [''  c'', ''def'']\<rparr>"
proof -
  let ?s = "\<lparr>cols = 3, rows = 2, scroll = (1, 2), row = 1, col = 1, pending = [],
          buf = [''abc'', ''def'']\<rparr>"
  have g: "grid 3 2 ?s" by (simp add: grid_def)
  have run: "append_chunk ?s (ESCAPE # ''[K'') =
     Inr \<lparr>cols = 3, rows = 2, scroll = (1, 2), row = 1, col = 1, pending = [],
          buf = [''  c'', ''def'']\<rparr>"
    by code_simp
  from erase_to_end_of_line [OF g]
  have "\<exists>s'. append_chunk ?s (ESCAPE # ''[K'') = Inr s' \<and> cell s' 1 1 = CHR '' '' \<and> cell s' 1 3 = cell ?s 1 3"
    by fastforce
  with g run show ?thesis by simp
qed

subsection \<open>Line wrap\<close>

text \<open>
  C8, as stated: on a terminal of at least two rows, writing \<open>cols + 1\<close> plain
  characters from row 1, column 1 leaves the cursor at row 2, column 2 and the last
  character at row 2, column 1. With a single column the advance after the second
  character wraps again: on a grid of one column and three rows the cursor ends at
  row 3, column 1.
\<close>

theorem cursor_wrap_one_column_counterexample:
  "append_chunk (init 1 3) ''ab'' =
     Inr \<lparr>cols = 1, rows = 3, scroll = (1, 3), row = 3, col = 1, pending = [],
          buf = [''a'', ''b'', '' '']\<rparr>"
  by code_simp

text \<open>
  C8, amended: on a terminal of at least two rows and at least two columns, with the
  default scroll region, writing \<open>cols + 1\<close> plain characters from row 1, column 1
  leaves the cursor at row 2, column 2; row 1 holds the first \<open>cols\<close> characters and
  the last character is at row 2, column 1.
\<close>

theorem cursor_wrap:
  assumes "grid c n s" and "2 \<le> c" and "2 \<le> n"
    and "scroll s = (1, n)" and "row s = 1" and "col s = 1" and "pending s = []"
    and "length cs = nat c + 1" and "\<forall>x \<in> set cs. plain x"
  shows "\<exists>s'. append_chunk s cs = Inr s' \<and> row s' = 2 \<and> col s' = 2 \<and>
           buf s' ! 0 = take (nat c) cs \<and> buf s' ! 1 ! 0 = cs ! nat c"
proof -
  define m where "m = nat c - 1"
  have m: "Suc m = nat c" "m < length cs" "Suc m < length cs" "length cs = Suc (Suc m)"
    using assms(2,8) by (simp_all add: m_def)
  let ?xs = "take m cs"
  have "drop (Suc m) cs = [cs ! Suc m]"
    using Cons_nth_drop_Suc [OF m(3)] m(4) by simp
  with Cons_nth_drop_Suc [OF m(2)] have "drop m cs = [cs ! m, cs ! Suc m]" by simp
  with append_take_drop_id [of m cs] have cs: "cs = ?xs @ [cs ! m, cs ! Suc m]" by simp
  have tk: "take (nat c) cs = ?xs @ [cs ! m]"
    using take_Suc_conv_app_nth [OF m(2)] m(1) by simp
  have "length ?xs = nat c - 1" using m by simp
  from puts_wrap_line [OF assms(1-6) this, of "cs ! m" "cs ! Suc m"]
  obtain s' where run: "puts s (?xs @ [cs ! m, cs ! Suc m]) True = Inr s'"
    and s': "row s' = 2" "col s' = 2" "buf s' ! 0 = ?xs @ [cs ! m]" "buf s' ! 1 ! 0 = cs ! Suc m"
    by blast
  have s: "s\<lparr>pending := []\<rparr> = s" using assms(7) by (cases s) simp
  have "append_loop s cs 0 = puts s (drop 0 cs) True"
    using assms(9) by (intro append_loop_plain) simp
  then have "append_chunk s cs = puts s cs True"
    unfolding append_chunk_def assms(7) s by simp
  with run cs have "append_chunk s cs = Inr s'" by simp
  with s' tk m(1) show ?thesis by auto
qed

text \<open>The amended C8 on a fresh grid of two columns and two rows.\<close>

theorem cursor_wrap_witness:
  "grid 2 2 (init 2 2) \<and>
   append_chunk (init 2 2) ''abc'' =
     Inr \<lparr>cols = 2, rows = 2, scroll = (1, 2), row = 2, col = 2, pending = [],
          buf = [''ab'', ''c '']\<rparr>"
proof -
  have g: "grid 2 2 (init 2 2)" by (rule grid_init)
  have run: "append_chunk (init 2 2) ''abc'' =
     Inr \<lparr>cols = 2, rows = 2, scroll = (1, 2), row = 2, col = 2, pending = [],
          buf = [''ab'', ''c '']\<rparr>"
    by code_simp
  have "\<exists>s'. append_chunk (init 2 2) ''abc'' = Inr s' \<and> row s' = 2 \<and> col s' = 2 \<and>
           buf s' ! 0 = take (nat 2) ''abc'' \<and> buf s' ! 1 ! 0 = ''abc'' ! nat 2"
    using g by (intro cursor_wrap [of 2 2]) (simp_all add: init_def reset_def plain_def ESCAPE_def)
  with g run show ?thesis by simp
qed

subsection \<open>The shape of the grid\<close>

text \<open>
  C9. For a terminal constructed with at least one row and one column, after any
  sequence of calls of \<open>append\<close> that return, the buffer holds \<open>rows\<close> rows of \<open>cols\<close>
  cells each, and \<open>dump\<close> returns \<open>rows * (cols + 1)\<close> characters.
\<close>

theorem grid_shape_invariant:
  assumes "1 \<le> c" and "1 \<le> n" and "append_all (init c n) chunks = Inr s"
  shows "length (buf s) = nat n \<and> (\<forall>x \<in> set (buf s). length x = nat c) \<and>
         length (dump s) = nat n * (nat c + 1)"
proof -
  have g: "grid c n s" using grid_init assms(3) by (rule grid_append_all)
  then show ?thesis using length_dump [OF g] by (simp add: grid_def list_all_iff)
qed

text \<open>C9 on a grid of three columns and two rows, after two calls.\<close>

theorem grid_shape_invariant_witness:
  "append_all (init 3 2) [''ab'' @ [CHR 0x0A], ''c''] =
     Inr \<lparr>cols = 3, rows = 2, scroll = (1, 2), row = 2, col = 2, pending = [],
          buf = [''ab '', ''c  '']\<rparr> \<and>
   length (dump \<lparr>cols = 3, rows = 2, scroll = (1, 2), row = 2, col = 2, pending = [],
          buf = [''ab '', ''c  '']\<rparr>) = 8"
proof -
  have run: "append_all (init 3 2) [''ab'' @ [CHR 0x0A], ''c''] =
     Inr \<lparr>cols = 3, rows = 2, scroll = (1, 2), row = 2, col = 2, pending = [],
          buf = [''ab '', ''c  '']\<rparr>"
    by code_simp
  have c: "(1::int) \<le> 3" and n: "(1::int) \<le> 2" by simp_all
  from grid_shape_invariant [OF c n run] show ?thesis using run by simp
qed

end
